theory Spec2Isabelle
  imports Main "HOL-Library.Multiset"
begin

text \<open>
  A shallow embedding of the flow-execution code of Clara: the executor of the
  \<^verbatim>\<open>imageDescriptionOutputNode\<close> node type, the overlay of runtime inputs in
  \<^verbatim>\<open>runApp\<close> of the app runner, \<^verbatim>\<open>OllamaClient.getConfig\<close>, and the plan builder the
  app runner calls. The model comes first, the properties after it.
\<close>

section \<open>JavaScript values\<close>

text \<open>
  The values an executor receives and returns are JavaScript values (\<^verbatim>\<open>any\<close> in the
  TypeScript source). Tree-shaped values suffice for the executor: it only tests
  truthiness, tests \<^verbatim>\<open>typeof input === 'string'\<close> and serialises. Numbers are
  restricted to the integers and NaN; no property proved below depends on a number
  beyond its truthiness.
\<close>

datatype js_value =
    JUndefined
  | JNull
  | JBool bool
  | JNum int
  | JNaN
  | JStr string
  | JArr "js_value list"
  | JObj "(string \<times> js_value) list"

text \<open>ToBoolean: the falsy values are undefined, null, false, 0, NaN and the empty string.\<close>

fun js_truthy :: "js_value \<Rightarrow> bool" where
  "js_truthy JUndefined = False"
| "js_truthy JNull = False"
| "js_truthy (JBool b) = b"
| "js_truthy (JNum n) = (n \<noteq> 0)"
| "js_truthy JNaN = False"
| "js_truthy (JStr s) = (s \<noteq> [])"
| "js_truthy (JArr xs) = True"
| "js_truthy (JObj ps) = True"

text \<open>The operator \<^verbatim>\<open>a || b\<close>: the left operand when it is truthy, the right one otherwise.\<close>

definition js_or :: "js_value \<Rightarrow> js_value \<Rightarrow> js_value" where
  "js_or a b = (if js_truthy a then a else b)"

text \<open>
  An inputs object is a map from port names to values; reading a key that is absent
  gives \<^verbatim>\<open>undefined\<close>.
\<close>

type_synonym js_record = "string \<rightharpoonup> js_value"

definition js_get :: "js_record \<Rightarrow> string \<Rightarrow> js_value" where
  "js_get m k = (case m k of None \<Rightarrow> JUndefined | Some v \<Rightarrow> v)"

section \<open>The imageDescriptionOutputNode executor\<close>

text \<open>
  \<^verbatim>\<open>NodeExecutionContext\<close>, as the executor destructures it: the node (only its id is
  read), the resolved inputs, and the optional callback \<^verbatim>\<open>updateNodeOutput\<close>. The
  callback is a procedure of the caller; its effect is a transformation of the caller's
  state \<open>'s\<close>.
\<close>

record 's NodeExecutionContext =
  node_id :: string
  inputs :: js_record
  updateNodeOutput :: "(string \<Rightarrow> js_value \<Rightarrow> 's \<Rightarrow> 's) option"

text \<open>
  Line 6 of the executor:
  \<^verbatim>\<open>const input = inputs.text || inputs['text-in'] || inputs.default || ''\<close>
  (the operator associates to the left).
\<close>

definition resolve_input :: "js_record \<Rightarrow> js_value" where
  "resolve_input ins =
     js_or (js_or (js_or (js_get ins ''text'') (js_get ins ''text-in''))
                  (js_get ins ''default''))
           (JStr '''')"

text \<open>
  Line 7: \<^verbatim>\<open>typeof input === 'string' ? input : JSON.stringify(input)\<close>.
  \<^verbatim>\<open>JSON.stringify\<close> is the platform's, not this repository's: it is the parameter
  \<open>stringify\<close>.
\<close>

definition output_of :: "(js_value \<Rightarrow> string) \<Rightarrow> js_value \<Rightarrow> string" where
  "output_of stringify input = (case input of JStr s \<Rightarrow> s | _ \<Rightarrow> stringify input)"

text \<open>
  The executor returns its output together with the caller's state after the callback
  calls it made: none when no callback was supplied, one call otherwise.
\<close>

definition executeImageDescriptionOutput ::
  "(js_value \<Rightarrow> string) \<Rightarrow> 's NodeExecutionContext \<Rightarrow> 's \<Rightarrow> js_value \<times> 's" where
  "executeImageDescriptionOutput stringify context s =
     (let input = resolve_input (inputs context);
          output = JStr (output_of stringify input)
      in case updateNodeOutput context of
           None \<Rightarrow> (output, s)
         | Some f \<Rightarrow> (output, f (node_id context) output s))"


text \<open>A callback that only records its calls, in order.\<close>

definition record_call ::
  "string \<Rightarrow> js_value \<Rightarrow> (string \<times> js_value) list \<Rightarrow> (string \<times> js_value) list" where
  "record_call nodeId output calls = calls @ [(nodeId, output)]"

text \<open>
  The alias chain as the specification words it, by presence of the keys, for
  comparison with \<open>resolve_input\<close>: the value under \<^verbatim>\<open>text\<close> if present, otherwise
  the value under \<^verbatim>\<open>text-in\<close>, otherwise the value under \<^verbatim>\<open>default\<close>, otherwise the
  empty string.
\<close>

definition alias_chain_by_presence :: "js_record \<Rightarrow> js_value" where
  "alias_chain_by_presence ins =
     (case ins ''text'' of
        Some v \<Rightarrow> v
      | None \<Rightarrow> (case ins ''text-in'' of
                   Some v \<Rightarrow> v
                 | None \<Rightarrow> (case ins ''default'' of Some v \<Rightarrow> v | None \<Rightarrow> JStr '''')))"

section \<open>Objects by reference\<close>

text \<open>
  Two functions of the repository build new objects from old ones with the spread
  syntax, and the claims about them are about sharing: what is a new object, and what
  is left as it was. Objects and arrays therefore live in a store, and a value is a
  primitive or a reference into it. A plain object is the list of its own enumerable
  properties in insertion order; an array is the list of its elements. Allocation
  appends a cell, so a reference is an index and a new reference is one the store did
  not have before.
\<close>

datatype hval = HUndefined | HNull | HBool bool | HNum int | HStr string | HRef nat

type_synonym obj = "(string \<times> hval) list"

datatype cell = ObjCell obj | ArrCell "hval list"

type_synonym heap = "cell list"

text \<open>
  \<open>TypeError\<close> is JavaScript's own. \<open>IllTyped\<close> marks a store a JavaScript program
  cannot be in, or a value outside the TypeScript annotations: a reference to no cell,
  or a \<^verbatim>\<open>Node\<close> whose \<^verbatim>\<open>id\<close> is not a string.
\<close>

datatype js_error = TypeError | IllTyped

definition alloc :: "cell \<Rightarrow> heap \<Rightarrow> nat \<times> heap" where
  "alloc c h = (length h, h @ [c])"

text \<open>\<^verbatim>\<open>o[k] = v\<close> on a property list: an existing key keeps its place.\<close>

fun set_prop :: "string \<Rightarrow> hval \<Rightarrow> obj \<Rightarrow> obj" where
  "set_prop k v [] = [(k, v)]"
| "set_prop k v (p # ps) = (if fst p = k then (k, v) # ps else p # set_prop k v ps)"

text \<open>\<^verbatim>\<open>{ ...ps, ...qs }\<close>: the properties of \<open>qs\<close> assigned onto a copy of \<open>ps\<close>, in order.\<close>

fun assign :: "obj \<Rightarrow> obj \<Rightarrow> obj" where
  "assign ps [] = ps"
| "assign ps (q # qs) = assign (set_prop (fst q) (snd q) ps) qs"

text \<open>The index keys \<^verbatim>\<open>"0"\<close>, \<^verbatim>\<open>"1"\<close>, ... of a string's characters and an array's elements.\<close>

fun decimal :: "nat \<Rightarrow> string" where
  "decimal n = (if n < 10 then [char_of (48 + n)]
                else decimal (n div 10) @ [char_of (48 + n mod 10)])"

definition index_props :: "hval list \<Rightarrow> obj" where
  "index_props xs = zip (map decimal [0..<length xs]) xs"

text \<open>
  The own enumerable properties a spread \<^verbatim>\<open>...v\<close> copies: those of the object or
  array referred to, the characters of a string, none for the other primitives
  (spreading undefined or null copies nothing and does not raise).
\<close>

fun own_props :: "heap \<Rightarrow> hval \<Rightarrow> js_error + obj" where
  "own_props h (HRef a) =
     (if a < length h
      then (case h ! a of ObjCell ps \<Rightarrow> Inr ps | ArrCell xs \<Rightarrow> Inr (index_props xs))
      else Inl IllTyped)"
| "own_props h (HStr s) = Inr (index_props (map (\<lambda>c. HStr [c]) s))"
| "own_props h v = Inr []"


section \<open>OllamaClient: the configuration and getConfig\<close>

text \<open>
  \<^verbatim>\<open>OpenAIConfig\<close> has three string fields, \<^verbatim>\<open>apiKey\<close>, \<^verbatim>\<open>baseUrl\<close> and \<^verbatim>\<open>type\<close>.
  The constructor's optional argument is a \<^verbatim>\<open>Partial<OpenAIConfig>\<close>: each field may be
  missing. The client keeps a reference to its configuration object in the private
  field \<^verbatim>\<open>config\<close>, which no method assigns or writes through.
\<close>

record PartialOpenAIConfig =
  apiKey :: "string option"
  baseUrl :: "string option"
  type :: "string option"

record OllamaClient =
  abortController :: hval
  config :: nat

text \<open>\<^verbatim>\<open>x || d\<close> for an optional string \<open>x\<close>: undefined and the empty string give \<open>d\<close>.\<close>

definition or_default :: "string option \<Rightarrow> string \<Rightarrow> string" where
  "or_default x d = (case x of None \<Rightarrow> d | Some s \<Rightarrow> (if s = [] then d else s))"

text \<open>
  \<^verbatim>\<open>constructor(baseUrl, config?)\<close>:
  \<^verbatim>\<open>this.config = { apiKey: config?.apiKey || '', baseUrl: baseUrl, type: config?.type || 'ollama' }\<close>.
\<close>

definition OllamaClient_new ::
  "string \<Rightarrow> PartialOpenAIConfig option \<Rightarrow> heap \<Rightarrow> OllamaClient \<times> heap" where
  "OllamaClient_new url cfg h =
     (let (a, h') = alloc (ObjCell
            [(''apiKey'', HStr (or_default (case cfg of None \<Rightarrow> None | Some c \<Rightarrow> apiKey c) '''')),
             (''baseUrl'', HStr url),
             (''type'', HStr (or_default (case cfg of None \<Rightarrow> None | Some c \<Rightarrow> type c) ''ollama''))]) h
      in (\<lparr>abortController = HNull, config = a\<rparr>, h'))"

text \<open>\<^verbatim>\<open>getConfig(): return { ...this.config }\<close>: a new object with the properties copied.\<close>

definition getConfig :: "OllamaClient \<Rightarrow> heap \<Rightarrow> js_error + (nat \<times> heap)" where
  "getConfig client h =
     (case own_props h (HRef (config client)) of
        Inl e \<Rightarrow> Inl e
      | Inr ps \<Rightarrow> Inr (alloc (ObjCell (assign [] ps)) h))"

text \<open>
  A client of the store \<open>h\<close>: its configuration is an object of \<open>h\<close> with the three
  fields, each a string, as the constructor leaves it.
\<close>

definition is_client :: "OllamaClient \<Rightarrow> heap \<Rightarrow> bool" where
  "is_client client h =
     (config client < length h \<and>
      (case h ! config client of
         ObjCell [(k1, HStr a), (k2, HStr b), (k3, HStr t)] \<Rightarrow>
           k1 = ''apiKey'' \<and> k2 = ''baseUrl'' \<and> k3 = ''type''
       | _ \<Rightarrow> False))"

section \<open>runApp: overlaying the runtime inputs\<close>














section \<open>The plan builder\<close>

text \<open>
  Modelled from the spec: \<^verbatim>\<open>generateExecutionPlan\<close> (the spec's \<^verbatim>\<open>buildPlan\<close>) of the
  module \<^verbatim>\<open>ExecutionEngine\<close>, which \<^verbatim>\<open>runApp\<close> imports and calls and which is not among
  the sources. The definitions of this section follow sections 3, 4.2 and 6 of the
  specification.

  The graph input is a list of nodes (id, type, configuration payload) and a list of
  edges (source and target node ids, optional port names).
\<close>

record GraphNode =
  nid :: string
  ntype :: string
  ndata :: "(string \<times> js_value) list"

record Edge =
  source :: string
  sourceHandle :: "string option"
  target :: string
  targetHandle :: "string option"

text \<open>The outcomes of the plan builder other than a plan (section 4.2).\<close>

datatype structural_error =
    CycleDetected "string list"
  | DanglingEdge Edge
  | DuplicateNodeId string

text \<open>
  Modelled from the spec: the checks of the Graph invariants, which the absent plan
  builder makes before planning. Node ids are unique within a graph, and every edge's
  source and target are ids of the node set.
\<close>

fun first_duplicate :: "string list \<Rightarrow> string option" where
  "first_duplicate [] = None"
| "first_duplicate (x # xs) = (if x \<in> set xs then Some x else first_duplicate xs)"

definition first_dangling :: "string list \<Rightarrow> Edge list \<Rightarrow> Edge option" where
  "first_dangling ids es = find (\<lambda>e. source e \<notin> set ids \<or> target e \<notin> set ids) es"

text \<open>
  Modelled from the spec: the algorithm of section 4.2 of the absent plan builder.
  ``Compute each node's in-degree from the edge set'':
\<close>

definition in_degree :: "Edge list \<Rightarrow> string \<Rightarrow> int" where
  "in_degree es n = int (length (filter (\<lambda>e. target e = n) es))"

text \<open>
  Modelled from the spec (the absent plan builder): ``decrement in-degree of their
  dependents'', once for every edge that leaves a node of the wave.
\<close>

fun decrement :: "string list \<Rightarrow> Edge list \<Rightarrow> (string \<Rightarrow> int) \<Rightarrow> (string \<Rightarrow> int)" where
  "decrement wave [] d = d"
| "decrement wave (e # es) d =
     decrement wave es
       (if source e \<in> set wave then d(target e := d (target e) - 1) else d)"

text \<open>
  Modelled from the spec (the absent plan builder): ``repeatedly extract all nodes
  whose in-degree is currently zero, forming a wave; decrement in-degree of their
  dependents; repeat until no nodes remain. If nodes remain but no wave can be formed,
  the graph contains a cycle: report the remaining node ids.'' The nodes of a wave are
  in the order of the input.
\<close>

function waves ::
  "Edge list \<Rightarrow> string list \<Rightarrow> (string \<Rightarrow> int) \<Rightarrow> structural_error + string list list" where
  "waves es remaining d =
     (if remaining = [] then Inr []
      else
        let wave = filter (\<lambda>n. d n = 0) remaining in
        if wave = [] then Inl (CycleDetected remaining)
        else (case waves es (filter (\<lambda>n. d n \<noteq> 0) remaining) (decrement wave es d) of
                Inl err \<Rightarrow> Inl err
              | Inr plan \<Rightarrow> Inr (wave # plan)))"
  by pat_completeness auto
termination
proof (relation "measure (\<lambda>(es, remaining, d). length remaining)")
  show "wf (measure (\<lambda>(es, remaining, d). length remaining))" by simp
next
  fix es :: "Edge list" and remaining :: "string list" and d :: "string \<Rightarrow> int" and wave
  assume "wave = filter (\<lambda>n. d n = 0) remaining" and "wave \<noteq> []"
  then obtain x where "x \<in> set remaining" and "d x = 0"
    by (metis (mono_tags, lifting) filter_False)
  then have "length (filter (\<lambda>n. d n \<noteq> 0) remaining) < length remaining"
    by (intro length_filter_less [of x]) simp_all
  then show "((es, filter (\<lambda>n. d n \<noteq> 0) remaining, decrement wave es d), es, remaining, d)
        \<in> measure (\<lambda>(es, remaining, d). length remaining)"
    by simp
qed

declare waves.simps [simp del]

text \<open>
  Modelled from the spec: \<^verbatim>\<open>buildPlan\<close> of the absent plan builder. A plan is the
  sequence of waves; the structural errors are reported before any planning.
\<close>

definition buildPlan :: "GraphNode list \<Rightarrow> Edge list \<Rightarrow> structural_error + string list list" where
  "buildPlan nodes es =
     (let ids = map nid nodes in
      case first_duplicate ids of
        Some i \<Rightarrow> Inl (DuplicateNodeId i)
      | None \<Rightarrow>
          (case first_dangling ids es of
             Some e \<Rightarrow> Inl (DanglingEdge e)
           | None \<Rightarrow> waves es ids (in_degree es)))"

text \<open>
  The dependency relation of a graph: the source of an edge is a dependency of its
  target. The Graph of the data model: unique node ids, no dangling edge.
\<close>

definition dependency :: "Edge list \<Rightarrow> (string \<times> string) set" where
  "dependency es = (\<lambda>e. (source e, target e)) ` set es"

definition is_graph :: "GraphNode list \<Rightarrow> Edge list \<Rightarrow> bool" where
  "is_graph nodes es =
     (distinct (map nid nodes) \<and>
      list_all (\<lambda>e. source e \<in> set (map nid nodes) \<and> target e \<in> set (map nid nodes)) es)"

text \<open>
  The position of a node in the linear order of a plan (its waves one after the other),
  and the index of its wave.
\<close>

definition position :: "string list \<Rightarrow> string \<Rightarrow> nat" where
  "position xs x = length (takeWhile (\<lambda>y. y \<noteq> x) xs)"

definition wave_of :: "string list list \<Rightarrow> string \<Rightarrow> nat" where
  "wave_of plan x = length (takeWhile (\<lambda>w. x \<notin> set w) plan)"

text \<open>
  The invariant of the planning loop: the remaining nodes are distinct, and the
  in-degree kept for a remaining node counts its in-edges from remaining nodes.
\<close>

definition planning_inv :: "Edge list \<Rightarrow> string list \<Rightarrow> (string \<Rightarrow> int) \<Rightarrow> bool" where
  "planning_inv es remaining d \<longleftrightarrow>
     distinct remaining \<and>
     (\<forall>n\<in>set remaining.
        d n = int (length (filter (\<lambda>e. target e = n \<and> source e \<in> set remaining) es)))"

text \<open>The nodes that lie on a cycle of the dependency relation.\<close>

definition on_cycle :: "Edge list \<Rightarrow> string set" where
  "on_cycle es = {n. (n, n) \<in> (dependency es)\<^sup>+}"

section \<open>The alias chain\<close>

lemma resolve_input_cases:
  "resolve_input ins =
     (if js_truthy (js_get ins ''text'') then js_get ins ''text''
      else if js_truthy (js_get ins ''text-in'') then js_get ins ''text-in''
      else if js_truthy (js_get ins ''default'') then js_get ins ''default''
      else JStr '''')"
  by (simp add: resolve_input_def js_or_def)

lemma resolve_input_absent:
  "ins ''text'' = None \<Longrightarrow> ins ''text-in'' = None \<Longrightarrow> ins ''default'' = None
   \<Longrightarrow> resolve_input ins = JStr ''''"
  by (simp add: resolve_input_cases js_get_def)

lemma execute_fst:
  "fst (executeImageDescriptionOutput stringify context s) =
     JStr (output_of stringify (resolve_input (inputs context)))"
  by (simp add: executeImageDescriptionOutput_def Let_def split: option.split)

text \<open>
  Claim C3, as amended. The value the executor uses is the first truthy value among
  \<^verbatim>\<open>inputs.text\<close>, \<^verbatim>\<open>inputs['text-in']\<close> and \<^verbatim>\<open>inputs.default\<close>, in this order (a key that
  is absent reads as undefined, which is falsy, and a falsy value that is present is
  skipped like an absent one), and the empty string when none is truthy, in particular
  when none of the three keys is present: a missing input is no error. The executor
  returns that value unchanged when it is a string and its JSON serialisation
  otherwise.
\<close>

theorem alias_chain_first_truthy:
  "resolve_input ins =
     (case find js_truthy [js_get ins ''text'', js_get ins ''text-in'', js_get ins ''default''] of
        Some v \<Rightarrow> v
      | None \<Rightarrow> JStr '''')
   \<and> fst (executeImageDescriptionOutput stringify
          \<lparr>node_id = i, inputs = ins, updateNodeOutput = cb\<rparr> s) =
       (case resolve_input ins of JStr t \<Rightarrow> JStr t | v \<Rightarrow> JStr (stringify v))
   \<and> (ins ''text'' = None \<and> ins ''text-in'' = None \<and> ins ''default'' = None \<longrightarrow>
       fst (executeImageDescriptionOutput stringify
              \<lparr>node_id = i, inputs = ins, updateNodeOutput = cb\<rparr> s) = JStr '''')"
proof -
  have chain: "resolve_input ins =
     (case find js_truthy [js_get ins ''text'', js_get ins ''text-in'', js_get ins ''default''] of
        Some v \<Rightarrow> v | None \<Rightarrow> JStr '''')"
    by (simp add: resolve_input_cases)
  have out: "fst (executeImageDescriptionOutput stringify
          \<lparr>node_id = i, inputs = ins, updateNodeOutput = cb\<rparr> s) =
       (case resolve_input ins of JStr t \<Rightarrow> JStr t | v \<Rightarrow> JStr (stringify v))"
    by (simp add: execute_fst output_of_def split: js_value.split)
  have absent: "ins ''text'' = None \<and> ins ''text-in'' = None \<and> ins ''default'' = None \<Longrightarrow>
       fst (executeImageDescriptionOutput stringify
              \<lparr>node_id = i, inputs = ins, updateNodeOutput = cb\<rparr> s) = JStr ''''"
    by (simp add: execute_fst resolve_input_absent output_of_def)
  from chain out absent show ?thesis by simp
qed

theorem alias_chain_first_truthy_witness:
  "resolve_input [''text'' \<mapsto> JNum 0, ''default'' \<mapsto> JBool True] = JBool True
   \<and> fst (executeImageDescriptionOutput (\<lambda>v. ''true'')
          \<lparr>node_id = ''out'', inputs = [''text'' \<mapsto> JNum 0, ''default'' \<mapsto> JBool True],
           updateNodeOutput = None\<rparr> ()) = JStr ''true''
   \<and> fst (executeImageDescriptionOutput (\<lambda>v. ''true'')
          \<lparr>node_id = ''out'', inputs = Map.empty, updateNodeOutput = None\<rparr> ()) = JStr ''''"
  using alias_chain_first_truthy [of "[''text'' \<mapsto> JNum 0, ''default'' \<mapsto> JBool True]"
          "\<lambda>v. ''true''" "''out''" None "()"]
        alias_chain_first_truthy [of Map.empty "\<lambda>v. ''true''" "''out''" None "()"]
  by (simp add: js_get_def)

text \<open>
  Claim C3 as stated resolves the chain by presence of the keys. The executor differs
  from that where a key is present with a falsy value: with
  \<^verbatim>\<open>{text: '', 'text-in': 'abc'}\<close> the executor returns \<^verbatim>\<open>'abc'\<close>, the chain by
  presence gives the empty string.
\<close>

theorem alias_chain_by_presence_counterexample:
  "fst (executeImageDescriptionOutput (\<lambda>v. ''null'')
          \<lparr>node_id = ''out'',
           inputs = [''text'' \<mapsto> JStr '''', ''text-in'' \<mapsto> JStr ''abc''],
           updateNodeOutput = None\<rparr> ())
   \<noteq> JStr (output_of (\<lambda>v. ''null'')
            (alias_chain_by_presence [''text'' \<mapsto> JStr '''', ''text-in'' \<mapsto> JStr ''abc'']))"
  by (simp add: execute_fst resolve_input_cases js_get_def output_of_def
        alias_chain_by_presence_def)

section \<open>Falsy values are skipped\<close>

text \<open>
  Claim C9. When \<^verbatim>\<open>inputs.text\<close> is the empty string and \<^verbatim>\<open>inputs['text-in']\<close> is a
  non-empty string \<open>t\<close>, the executor returns \<open>t\<close>; and the executor cannot tell an
  empty string under \<^verbatim>\<open>text\<close> from an absent \<^verbatim>\<open>text\<close>: removing the key changes
  neither the value returned nor the callback's effect.
\<close>

theorem empty_text_is_skipped:
  assumes "inputs context ''text'' = Some (JStr '''')"
    and "inputs context ''text-in'' = Some (JStr t)"
    and "t \<noteq> []"
  shows "fst (executeImageDescriptionOutput stringify context s) = JStr t
     \<and> executeImageDescriptionOutput stringify context s =
         executeImageDescriptionOutput stringify
           (context\<lparr>inputs := (inputs context)(''text'' := None)\<rparr>) s"
proof -
  have r: "resolve_input (inputs context) = JStr t"
    using assms by (simp add: resolve_input_cases js_get_def)
  have r': "resolve_input ((inputs context)(''text'' := None)) = JStr t"
    using assms by (simp add: resolve_input_cases js_get_def)
  have "fst (executeImageDescriptionOutput stringify context s) = JStr t"
    by (simp add: execute_fst r output_of_def)
  moreover have "executeImageDescriptionOutput stringify context s =
         executeImageDescriptionOutput stringify
           (context\<lparr>inputs := (inputs context)(''text'' := None)\<rparr>) s"
    by (simp add: executeImageDescriptionOutput_def Let_def r r' split: option.split)
  ultimately show ?thesis by simp
qed

theorem empty_text_is_skipped_witness:
  "fst (executeImageDescriptionOutput (\<lambda>v. ''null'')
          \<lparr>node_id = ''out'',
           inputs = [''text'' \<mapsto> JStr '''', ''text-in'' \<mapsto> JStr ''a cat''],
           updateNodeOutput = Some record_call\<rparr> []) = JStr ''a cat''
   \<and> executeImageDescriptionOutput (\<lambda>v. ''null'')
          \<lparr>node_id = ''out'',
           inputs = [''text-in'' \<mapsto> JStr ''a cat''],
           updateNodeOutput = Some record_call\<rparr> []
       = (JStr ''a cat'', [(''out'', JStr ''a cat'')])"
  using empty_text_is_skipped [of
          "\<lparr>node_id = ''out'',
            inputs = [''text'' \<mapsto> JStr '''', ''text-in'' \<mapsto> JStr ''a cat''],
            updateNodeOutput = Some record_call\<rparr>" "''a cat''" "\<lambda>v. ''null''" "[]"]
  by (simp add: executeImageDescriptionOutput_def Let_def resolve_input_cases js_get_def
        output_of_def record_call_def)

section \<open>Result publication by the executor\<close>



section \<open>getConfig returns a copy\<close>

lemma is_client_iff:
  "is_client client h \<longleftrightarrow>
     config client < length h \<and>
     (\<exists>a b t. h ! config client =
         ObjCell [(''apiKey'', HStr a), (''baseUrl'', HStr b), (''type'', HStr t)])"
  unfolding is_client_def
  by (auto split: cell.splits list.splits hval.splits prod.splits)

lemma getConfig_client:
  assumes "is_client client h"
  shows "getConfig client h = Inr (length h, h @ [h ! config client])"
  using assms unfolding is_client_iff
  by (auto simp add: getConfig_def alloc_def)

lemma OllamaClient_new_is_client:
  "is_client (fst (OllamaClient_new url cfg h)) (snd (OllamaClient_new url cfg h))"
  unfolding is_client_iff
  by (simp add: OllamaClient_new_def alloc_def Let_def nth_append)

text \<open>
  Claim C10. For a client of the store, \<^verbatim>\<open>getConfig\<close> returns a new object (a
  reference the store did not have, so not the client's own configuration object) with
  the configuration's three string fields. Whatever is then written to the returned
  object, and whatever is allocated afterwards, the client's own configuration object is
  as it was, and a later \<^verbatim>\<open>getConfig\<close> returns again a new object with the original
  fields. The fields are strings, so no object is shared between the configuration and
  what \<^verbatim>\<open>getConfig\<close> returns.
\<close>

theorem getConfig_returns_copy:
  assumes "is_client client h"
  shows "getConfig client h = Inr (length h, h @ [h ! config client])
     \<and> length h \<noteq> config client
     \<and> (\<forall>c' ext.
          let h2 = (h @ [h ! config client])[length h := c'] @ ext
          in h2 ! config client = h ! config client
           \<and> is_client client h2
           \<and> getConfig client h2 = Inr (length h2, h2 @ [h ! config client]))"
proof -
  from assms have lt: "config client < length h" by (simp add: is_client_iff)
  have first: "getConfig client h = Inr (length h, h @ [h ! config client])"
    using assms by (rule getConfig_client)
  have later: "h2 ! config client = h ! config client \<and> is_client client h2
           \<and> getConfig client h2 = Inr (length h2, h2 @ [h ! config client])"
    if "h2 = (h @ [h ! config client])[length h := c'] @ ext" for h2 c' ext
  proof -
    have same: "h2 ! config client = h ! config client"
      using lt by (simp add: that nth_append)
    have "config client < length h2" using lt by (simp add: that)
    with assms same have cl: "is_client client h2" by (simp add: is_client_iff)
    from getConfig_client [OF cl] same cl show ?thesis by simp
  qed
  from first lt later show ?thesis by (simp add: Let_def)
qed

theorem getConfig_returns_copy_witness:
  "is_client \<lparr>abortController = HNull, config = 0\<rparr>
     [ObjCell [(''apiKey'', HStr ''''), (''baseUrl'', HStr ''http://localhost:11434''),
               (''type'', HStr ''ollama'')]]
   \<and> OllamaClient_new ''http://localhost:11434'' None [] =
       (\<lparr>abortController = HNull, config = 0\<rparr>,
        [ObjCell [(''apiKey'', HStr ''''), (''baseUrl'', HStr ''http://localhost:11434''),
                  (''type'', HStr ''ollama'')]])
   \<and> getConfig \<lparr>abortController = HNull, config = 0\<rparr>
       [ObjCell [(''apiKey'', HStr ''''), (''baseUrl'', HStr ''http://localhost:11434''),
                 (''type'', HStr ''ollama'')],
        ObjCell [(''apiKey'', HStr ''secret''), (''baseUrl'', HStr ''http://localhost:11434''),
                 (''type'', HStr ''ollama'')]]
     = Inr (2,
       [ObjCell [(''apiKey'', HStr ''''), (''baseUrl'', HStr ''http://localhost:11434''),
                 (''type'', HStr ''ollama'')],
        ObjCell [(''apiKey'', HStr ''secret''), (''baseUrl'', HStr ''http://localhost:11434''),
                 (''type'', HStr ''ollama'')],
        ObjCell [(''apiKey'', HStr ''''), (''baseUrl'', HStr ''http://localhost:11434''),
                 (''type'', HStr ''ollama'')]])"
proof -
  let ?cfg = "ObjCell [(''apiKey'', HStr ''''), (''baseUrl'', HStr ''http://localhost:11434''),
               (''type'', HStr ''ollama'')]"
  let ?cl = "\<lparr>abortController = HNull, config = 0\<rparr>"
  have new: "OllamaClient_new ''http://localhost:11434'' None [] = (?cl, [?cfg])"
    by (simp add: OllamaClient_new_def alloc_def or_default_def)
  have cl: "is_client ?cl [?cfg]"
    by (simp add: is_client_def)
  from getConfig_returns_copy [OF cl] have
    "\<forall>c' ext. let h2 = ([?cfg] @ [[?cfg] ! config ?cl])[length [?cfg] := c'] @ ext
        in getConfig ?cl h2 = Inr (length h2, h2 @ [[?cfg] ! config ?cl])"
    by (simp add: Let_def)
  then have "let h2 = ([?cfg] @ [[?cfg] ! config ?cl])[length [?cfg] :=
        ObjCell [(''apiKey'', HStr ''secret''), (''baseUrl'', HStr ''http://localhost:11434''),
                 (''type'', HStr ''ollama'')]] @ []
        in getConfig ?cl h2 = Inr (length h2, h2 @ [[?cfg] ! config ?cl])"
    by blast
  then show ?thesis using new cl by (simp add: Let_def)
qed

section \<open>The overlay of runtime inputs builds new objects\<close>















section \<open>Plans respect the dependencies\<close>

lemma decrement_closed:
  "decrement wave es d n =
     d n - int (length (filter (\<lambda>e. source e \<in> set wave \<and> target e = n) es))"
  by (induction es arbitrary: d) auto

lemma length_filter_split:
  "length (filter (\<lambda>e. P e \<and> (Q e \<or> R e)) es) + length (filter (\<lambda>e. P e \<and> Q e \<and> R e) es) =
   length (filter (\<lambda>e. P e \<and> Q e) es) + length (filter (\<lambda>e. P e \<and> R e) es)"
  by (induction es) auto

lemma planning_inv_step:
  assumes "planning_inv es remaining d"
  shows "planning_inv es (filter (\<lambda>n. d n \<noteq> 0) remaining)
           (decrement (filter (\<lambda>n. d n = 0) remaining) es d)"
proof -
  let ?wave = "filter (\<lambda>n. d n = 0) remaining"
  let ?rest = "filter (\<lambda>n. d n \<noteq> 0) remaining"
  from assms have dist: "distinct remaining"
    and deg: "\<And>n. n \<in> set remaining \<Longrightarrow>
        d n = int (length (filter (\<lambda>e. target e = n \<and> source e \<in> set remaining) es))"
    by (simp_all add: planning_inv_def)
  have "decrement ?wave es d n =
        int (length (filter (\<lambda>e. target e = n \<and> source e \<in> set ?rest) es))"
    if n: "n \<in> set ?rest" for n
  proof -
    from n have nr: "n \<in> set remaining" by simp
    have split: "\<And>s. s \<in> set remaining \<longleftrightarrow> s \<in> set ?wave \<or> s \<in> set ?rest" by auto
    have none: "filter (\<lambda>e. target e = n \<and> source e \<in> set ?wave \<and> source e \<in> set ?rest) es = []"
      by (auto simp add: filter_empty_conv)
    have "length (filter (\<lambda>e. target e = n \<and> source e \<in> set remaining) es) =
          length (filter (\<lambda>e. target e = n \<and> (source e \<in> set ?wave \<or> source e \<in> set ?rest)) es)"
      using split by metis
    also have "\<dots> = length (filter (\<lambda>e. target e = n \<and> source e \<in> set ?wave) es)
                  + length (filter (\<lambda>e. target e = n \<and> source e \<in> set ?rest) es)"
      using length_filter_split [of "\<lambda>e. target e = n" "\<lambda>e. source e \<in> set ?wave"
              "\<lambda>e. source e \<in> set ?rest" es] none
      by simp
    finally have "d n = int (length (filter (\<lambda>e. target e = n \<and> source e \<in> set ?wave) es))
                  + int (length (filter (\<lambda>e. target e = n \<and> source e \<in> set ?rest) es))"
      using deg [OF nr] by simp
    moreover have "filter (\<lambda>e. source e \<in> set ?wave \<and> target e = n) es =
                   filter (\<lambda>e. target e = n \<and> source e \<in> set ?wave) es"
      by (rule filter_cong) auto
    ultimately show ?thesis by (simp add: decrement_closed)
  qed
  with dist show ?thesis by (simp add: planning_inv_def)
qed

lemma planning_inv_init:
  assumes "is_graph nodes es"
  shows "planning_inv es (map nid nodes) (in_degree es)"
proof -
  from assms have dist: "distinct (map nid nodes)"
    and ends: "\<And>e. e \<in> set es \<Longrightarrow> source e \<in> set (map nid nodes)"
    by (auto simp add: is_graph_def list_all_iff)
  have "filter (\<lambda>e. target e = n) es =
        filter (\<lambda>e. target e = n \<and> source e \<in> set (map nid nodes)) es" for n
    by (rule filter_cong) (use ends in auto)
  then show ?thesis using dist by (simp add: planning_inv_def in_degree_def)
qed


lemma position_append:
  "position (xs @ ys) x = (if x \<in> set xs then position xs x else length xs + position ys x)"
  by (auto simp add: position_def takeWhile_append)

lemma position_less: "x \<in> set xs \<Longrightarrow> position xs x < length xs"
  by (induction xs) (auto simp add: position_def)

lemma wave_of_Cons:
  "wave_of (w # plan) x = (if x \<in> set w then 0 else Suc (wave_of plan x))"
  by (simp add: wave_of_def)

lemma in_degree_pos:
  assumes "planning_inv es remaining d" and "e \<in> set es"
    and "source e \<in> set remaining" and "target e \<in> set remaining"
  shows "d (target e) \<noteq> 0"
proof -
  from assms(2,3) have "e \<in> set (filter (\<lambda>e'. target e' = target e \<and> source e' \<in> set remaining) es)"
    by simp
  then have "0 < length (filter (\<lambda>e'. target e' = target e \<and> source e' \<in> set remaining) es)"
    by (rule length_pos_if_in_set)
  with assms(1,4) show ?thesis by (simp add: planning_inv_def)
qed

lemma waves_Nil: "waves es [] d = Inr []"
  by (simp add: waves.simps [of es "[]" d])

lemma waves_stuck:
  "remaining \<noteq> [] \<Longrightarrow> filter (\<lambda>n. d n = 0) remaining = [] \<Longrightarrow>
   waves es remaining d = Inl (CycleDetected remaining)"
  by (simp add: waves.simps [of es remaining d])

lemma waves_step:
  "filter (\<lambda>n. d n = 0) remaining \<noteq> [] \<Longrightarrow>
   waves es remaining d =
     (case waves es (filter (\<lambda>n. d n \<noteq> 0) remaining)
             (decrement (filter (\<lambda>n. d n = 0) remaining) es d) of
        Inl err \<Rightarrow> Inl err
      | Inr plan \<Rightarrow> Inr (filter (\<lambda>n. d n = 0) remaining # plan))"
  by (subst waves.simps) (auto simp add: Let_def)

lemma waves_sound:
  "planning_inv es remaining d \<Longrightarrow> waves es remaining d = Inr plan \<Longrightarrow>
   set (concat plan) = set remaining \<and> distinct (concat plan) \<and>
   (\<forall>e\<in>set es. source e \<in> set remaining \<and> target e \<in> set remaining \<longrightarrow>
      position (concat plan) (source e) < position (concat plan) (target e) \<and>
      wave_of plan (source e) < wave_of plan (target e))"
proof (induction es remaining d arbitrary: plan rule: waves.induct)
  case (1 es remaining d)
  let ?wave = "filter (\<lambda>n. d n = 0) remaining"
  let ?rest = "filter (\<lambda>n. d n \<noteq> 0) remaining"
  show ?case
  proof (cases "remaining = []")
    case True
    with "1.prems"(2) have "plan = []" by (simp add: waves_Nil)
    with True show ?thesis by simp
  next
    case False
    note nonempty = this
    show ?thesis
    proof (cases "?wave = []")
      case True
      with nonempty "1.prems"(2) show ?thesis
        by (simp add: waves_stuck)
    next
      case False
      with nonempty "1.prems"(2) obtain plan' where
        rec: "waves es ?rest (decrement ?wave es d) = Inr plan'" and plan: "plan = ?wave # plan'"
        by (auto simp add: waves_step split: sum.splits)
      from "1.IH" [OF nonempty refl False planning_inv_step [OF "1.prems"(1)] rec]
      have ih_set: "set (concat plan') = set ?rest"
        and ih_dist: "distinct (concat plan')"
        and ih_ord: "\<And>e. e \<in> set es \<Longrightarrow> source e \<in> set ?rest \<Longrightarrow> target e \<in> set ?rest \<Longrightarrow>
            position (concat plan') (source e) < position (concat plan') (target e) \<and>
            wave_of plan' (source e) < wave_of plan' (target e)"
        by blast+
      from "1.prems"(1) have dist: "distinct remaining" by (simp add: planning_inv_def)
      have sets: "set (concat plan) = set remaining"
        using ih_set plan by auto
      have distinct: "distinct (concat plan)"
        using ih_set ih_dist dist plan by auto
      have order: "position (concat plan) (source e) < position (concat plan) (target e) \<and>
            wave_of plan (source e) < wave_of plan (target e)"
        if e: "e \<in> set es" and s: "source e \<in> set remaining" and t: "target e \<in> set remaining"
        for e
      proof -
        from in_degree_pos [OF "1.prems"(1) e s t] have tn: "d (target e) \<noteq> 0" .
        with t have t_rest: "target e \<in> set ?rest" and t_wave: "target e \<notin> set ?wave" by simp_all
        show ?thesis
        proof (cases "d (source e) = 0")
          case True
          with s have s_wave: "source e \<in> set ?wave" by simp
          from position_less [OF s_wave] s_wave t_wave show ?thesis
            by (auto simp add: plan position_append wave_of_Cons)
        next
          case False
          with s have s_rest: "source e \<in> set ?rest" and s_wave: "source e \<notin> set ?wave"
            by simp_all
          from ih_ord [OF e s_rest t_rest] s_wave t_wave show ?thesis
            by (auto simp add: plan position_append wave_of_Cons)
        qed
      qed
      from sets distinct order show ?thesis by blast
    qed
  qed
qed


lemma finite_dependency: "finite (dependency es)"
  by (simp add: dependency_def)

lemma acyclic_has_wave:
  assumes inv: "planning_inv es remaining d" and ne: "remaining \<noteq> []"
    and acyc: "acyclic (dependency es)"
  shows "filter (\<lambda>n. d n = 0) remaining \<noteq> []"
proof -
  from finite_dependency acyc have "wf (dependency es)" by (rule finite_acyclic_wf)
  moreover from ne obtain x where "x \<in> set remaining" by (cases remaining) auto
  ultimately obtain z where z: "z \<in> set remaining"
    and minimal: "\<And>y. (y, z) \<in> dependency es \<Longrightarrow> y \<notin> set remaining"
    by (rule wfE_min) blast
  have "filter (\<lambda>e. target e = z \<and> source e \<in> set remaining) es = []"
  proof (rule ccontr)
    assume "filter (\<lambda>e. target e = z \<and> source e \<in> set remaining) es \<noteq> []"
    then obtain e where "e \<in> set es" "target e = z" "source e \<in> set remaining"
      by (auto simp add: filter_empty_conv)
    then have "(source e, z) \<in> dependency es" "source e \<in> set remaining"
      by (auto simp add: dependency_def)
    with minimal show False by blast
  qed
  with inv z have "d z = 0" by (simp add: planning_inv_def)
  with z show ?thesis by (auto simp add: filter_empty_conv)
qed

lemma waves_acyclic:
  "planning_inv es remaining d \<Longrightarrow> acyclic (dependency es) \<Longrightarrow>
   \<exists>plan. waves es remaining d = Inr plan"
proof (induction es remaining d rule: waves.induct)
  case (1 es remaining d)
  show ?case
  proof (cases "remaining = []")
    case True
    then show ?thesis by (simp add: waves_Nil)
  next
    case False
    from acyclic_has_wave [OF "1.prems"(1) False "1.prems"(2)]
    have wave: "filter (\<lambda>n. d n = 0) remaining \<noteq> []" .
    from "1.IH" [OF False refl wave planning_inv_step [OF "1.prems"(1)] "1.prems"(2)]
    obtain plan' where "waves es (filter (\<lambda>n. d n \<noteq> 0) remaining)
        (decrement (filter (\<lambda>n. d n = 0) remaining) es d) = Inr plan'" by blast
    then show ?thesis by (simp add: waves_step [OF wave])
  qed
qed

lemma on_cycle_pred:
  assumes "n \<in> on_cycle es"
  shows "\<exists>e\<in>set es. target e = n \<and> source e \<in> on_cycle es"
proof -
  from assms have "(n, n) \<in> (dependency es)\<^sup>+" by (simp add: on_cycle_def)
  then obtain z where nz: "(n, z) \<in> (dependency es)\<^sup>*" and zn: "(z, n) \<in> dependency es"
    by (blast dest: tranclD2)
  from zn nz have "(z, z) \<in> (dependency es)\<^sup>+" by (rule rtrancl_into_trancl2)
  then have "z \<in> on_cycle es" by (simp add: on_cycle_def)
  moreover from zn obtain e where "e \<in> set es" "source e = z" "target e = n"
    by (auto simp add: dependency_def)
  ultimately show ?thesis by blast
qed

lemma waves_cyclic:
  "planning_inv es remaining d \<Longrightarrow> on_cycle es \<subseteq> set remaining \<Longrightarrow> on_cycle es \<noteq> {} \<Longrightarrow>
   \<exists>ids. waves es remaining d = Inl (CycleDetected ids) \<and> on_cycle es \<subseteq> set ids
        \<and> set ids \<subseteq> set remaining"
proof (induction es remaining d rule: waves.induct)
  case (1 es remaining d)
  from "1.prems"(2,3) have ne: "remaining \<noteq> []" by auto
  show ?case
  proof (cases "filter (\<lambda>n. d n = 0) remaining = []")
    case True
    with ne "1.prems"(2) show ?thesis by (simp add: waves_stuck)
  next
    case False
    have keep: "on_cycle es \<subseteq> set (filter (\<lambda>n. d n \<noteq> 0) remaining)"
    proof
      fix n assume n: "n \<in> on_cycle es"
      from on_cycle_pred [OF n] obtain e where
        e: "e \<in> set es" "target e = n" "source e \<in> on_cycle es" by blast
      with n "1.prems"(2) have "source e \<in> set remaining" "target e \<in> set remaining" by auto
      from in_degree_pos [OF "1.prems"(1) e(1) this] e(2) have "d n \<noteq> 0" by simp
      with n "1.prems"(2) show "n \<in> set (filter (\<lambda>n. d n \<noteq> 0) remaining)" by auto
    qed
    from "1.IH" [OF ne refl False planning_inv_step [OF "1.prems"(1)] keep "1.prems"(3)]
    obtain ids where "waves es (filter (\<lambda>n. d n \<noteq> 0) remaining)
        (decrement (filter (\<lambda>n. d n = 0) remaining) es d) = Inl (CycleDetected ids)"
      and "on_cycle es \<subseteq> set ids" and "set ids \<subseteq> set (filter (\<lambda>n. d n \<noteq> 0) remaining)"
      by blast
    then show ?thesis by (auto simp add: waves_step [OF False])
  qed
qed

lemma first_duplicate_None: "first_duplicate xs = None \<longleftrightarrow> distinct xs"
  by (induction xs) auto

lemma first_dangling_None:
  "first_dangling ids es = None \<longleftrightarrow>
     list_all (\<lambda>e. source e \<in> set ids \<and> target e \<in> set ids) es"
  by (auto simp add: first_dangling_def find_None_iff list_all_iff)

lemma buildPlan_graph:
  "is_graph nodes es \<Longrightarrow> buildPlan nodes es = waves es (map nid nodes) (in_degree es)"
  by (simp add: buildPlan_def is_graph_def first_duplicate_None [THEN iffD2]
        first_dangling_None [THEN iffD2])

lemma acyclic_by_rank:
  assumes "list_all (\<lambda>e. (rank :: string \<Rightarrow> nat) (source e) < rank (target e)) es"
  shows "acyclic (dependency es)"
proof -
  have "dependency es \<subseteq> inv_image less_than rank"
    using assms by (auto simp add: dependency_def list_all_iff)
  moreover have "acyclic (inv_image less_than rank)"
    by (intro wf_acyclic wf_inv_image wf_less_than)
  ultimately show ?thesis by (rule acyclic_subset [rotated])
qed

text \<open>
  Claim C1. For a graph of the data model (unique node ids, no dangling edge) whose
  dependency relation is acyclic, \<^verbatim>\<open>buildPlan\<close> returns a plan; the plan holds every
  node exactly once; and for every edge the source stands strictly before the target,
  both in the linear order of the plan and by the index of the wave.
\<close>

theorem plan_respects_dependencies:
  assumes "is_graph nodes es" and "acyclic (dependency es)"
  shows "\<exists>plan. buildPlan nodes es = Inr plan
           \<and> set (concat plan) = set (map nid nodes) \<and> distinct (concat plan)
           \<and> (\<forall>e\<in>set es.
                position (concat plan) (source e) < position (concat plan) (target e)
              \<and> wave_of plan (source e) < wave_of plan (target e))"
proof -
  note inv = planning_inv_init [OF assms(1)]
  from waves_acyclic [OF inv assms(2)] obtain plan where
    plan: "waves es (map nid nodes) (in_degree es) = Inr plan" by blast
  from assms(1) have ends: "\<And>e. e \<in> set es \<Longrightarrow>
      source e \<in> set (map nid nodes) \<and> target e \<in> set (map nid nodes)"
    by (simp add: is_graph_def list_all_iff)
  from waves_sound [OF inv plan] ends
  have "set (concat plan) = set (map nid nodes) \<and> distinct (concat plan)
           \<and> (\<forall>e\<in>set es.
                position (concat plan) (source e) < position (concat plan) (target e)
              \<and> wave_of plan (source e) < wave_of plan (target e))"
    by blast
  with plan show ?thesis by (simp add: buildPlan_graph [OF assms(1)])
qed

theorem plan_respects_dependencies_witness:
  "is_graph
     [\<lparr>nid = ''A'', ntype = ''textInputNode'', ndata = []\<rparr>,
      \<lparr>nid = ''B'', ntype = ''imageInputNode'', ndata = []\<rparr>,
      \<lparr>nid = ''C'', ntype = ''textOutputNode'', ndata = []\<rparr>]
     [\<lparr>source = ''A'', sourceHandle = None, target = ''C'', targetHandle = Some ''text''\<rparr>,
      \<lparr>source = ''B'', sourceHandle = None, target = ''C'', targetHandle = Some ''image''\<rparr>]
   \<and> acyclic (dependency
     [\<lparr>source = ''A'', sourceHandle = None, target = ''C'', targetHandle = Some ''text''\<rparr>,
      \<lparr>source = ''B'', sourceHandle = None, target = ''C'', targetHandle = Some ''image''\<rparr>])
   \<and> buildPlan
     [\<lparr>nid = ''A'', ntype = ''textInputNode'', ndata = []\<rparr>,
      \<lparr>nid = ''B'', ntype = ''imageInputNode'', ndata = []\<rparr>,
      \<lparr>nid = ''C'', ntype = ''textOutputNode'', ndata = []\<rparr>]
     [\<lparr>source = ''A'', sourceHandle = None, target = ''C'', targetHandle = Some ''text''\<rparr>,
      \<lparr>source = ''B'', sourceHandle = None, target = ''C'', targetHandle = Some ''image''\<rparr>]
     = Inr [[''A'', ''B''], [''C'']]
   \<and> position (concat [[''A'', ''B''], [''C'']]) ''B'' < position (concat [[''A'', ''B''], [''C'']]) ''C''
   \<and> wave_of [[''A'', ''B''], [''C'']] ''B'' < wave_of [[''A'', ''B''], [''C'']] ''C''"
proof -
  let ?N = "[\<lparr>nid = ''A'', ntype = ''textInputNode'', ndata = []\<rparr>,
      \<lparr>nid = ''B'', ntype = ''imageInputNode'', ndata = []\<rparr>,
      \<lparr>nid = ''C'', ntype = ''textOutputNode'', ndata = []\<rparr>]"
  let ?E = "[\<lparr>source = ''A'', sourceHandle = None, target = ''C'', targetHandle = Some ''text''\<rparr>,
      \<lparr>source = ''B'', sourceHandle = None, target = ''C'', targetHandle = Some ''image''\<rparr>]"
  have graph: "is_graph ?N ?E" by (simp add: is_graph_def)
  have "list_all (\<lambda>e. (\<lambda>n. if n = ''C'' then 1 else (0::nat)) (source e)
                     < (\<lambda>n. if n = ''C'' then 1 else (0::nat)) (target e)) ?E"
    by simp
  then have acyc: "acyclic (dependency ?E)" by (rule acyclic_by_rank)
  have run: "buildPlan ?N ?E = Inr [[''A'', ''B''], [''C'']]"
    by (simp add: buildPlan_def first_dangling_def in_degree_def waves.simps Let_def)
  from plan_respects_dependencies [OF graph acyc] run
  have "position (concat [[''A'', ''B''], [''C'']]) ''B'' < position (concat [[''A'', ''B''], [''C'']]) ''C''
      \<and> wave_of [[''A'', ''B''], [''C'']] ''B'' < wave_of [[''A'', ''B''], [''C'']] ''C''"
    by auto
  with graph acyc run show ?thesis by simp
qed

text \<open>
  Claim C2. For a graph of the data model whose dependency relation has a cycle,
  \<^verbatim>\<open>buildPlan\<close> returns no plan but \<open>CycleDetected\<close>; the ids it reports are ids of
  the graph, one of them lies on a cycle, and indeed every node on a cycle is reported.
\<close>

theorem cycle_is_detected:
  assumes "is_graph nodes es" and "\<not> acyclic (dependency es)"
  shows "\<exists>ids. buildPlan nodes es = Inl (CycleDetected ids)
           \<and> (\<exists>n\<in>set ids. (n, n) \<in> (dependency es)\<^sup>+)
           \<and> {n. (n, n) \<in> (dependency es)\<^sup>+} \<subseteq> set ids
           \<and> set ids \<subseteq> set (map nid nodes)"
proof -
  note inv = planning_inv_init [OF assms(1)]
  from assms(2) have ne: "on_cycle es \<noteq> {}" by (auto simp add: acyclic_def on_cycle_def)
  have sub: "on_cycle es \<subseteq> set (map nid nodes)"
  proof
    fix n assume "n \<in> on_cycle es"
    from on_cycle_pred [OF this] obtain e where "e \<in> set es" "target e = n" by blast
    with assms(1) show "n \<in> set (map nid nodes)" by (auto simp add: is_graph_def list_all_iff)
  qed
  from waves_cyclic [OF inv sub ne] obtain ids where
    ids: "waves es (map nid nodes) (in_degree es) = Inl (CycleDetected ids)"
    and all: "on_cycle es \<subseteq> set ids" and within: "set ids \<subseteq> set (map nid nodes)" by blast
  from ne all have "\<exists>n\<in>set ids. (n, n) \<in> (dependency es)\<^sup>+" by (auto simp add: on_cycle_def)
  with ids all within show ?thesis
    by (auto simp add: buildPlan_graph [OF assms(1)] on_cycle_def)
qed


theorem cycle_is_detected_witness:
  "is_graph
     [\<lparr>nid = ''A'', ntype = ''textInputNode'', ndata = []\<rparr>,
      \<lparr>nid = ''B'', ntype = ''imageInputNode'', ndata = []\<rparr>,
      \<lparr>nid = ''C'', ntype = ''textOutputNode'', ndata = []\<rparr>]
     [\<lparr>source = ''A'', sourceHandle = None, target = ''B'', targetHandle = None\<rparr>,
      \<lparr>source = ''B'', sourceHandle = None, target = ''C'', targetHandle = None\<rparr>,
      \<lparr>source = ''C'', sourceHandle = None, target = ''B'', targetHandle = None\<rparr>]
   \<and> (''B'', ''B'') \<in> (dependency
     [\<lparr>source = ''A'', sourceHandle = None, target = ''B'', targetHandle = None\<rparr>,
      \<lparr>source = ''B'', sourceHandle = None, target = ''C'', targetHandle = None\<rparr>,
      \<lparr>source = ''C'', sourceHandle = None, target = ''B'', targetHandle = None\<rparr>])\<^sup>+
   \<and> buildPlan
     [\<lparr>nid = ''A'', ntype = ''textInputNode'', ndata = []\<rparr>,
      \<lparr>nid = ''B'', ntype = ''imageInputNode'', ndata = []\<rparr>,
      \<lparr>nid = ''C'', ntype = ''textOutputNode'', ndata = []\<rparr>]
     [\<lparr>source = ''A'', sourceHandle = None, target = ''B'', targetHandle = None\<rparr>,
      \<lparr>source = ''B'', sourceHandle = None, target = ''C'', targetHandle = None\<rparr>,
      \<lparr>source = ''C'', sourceHandle = None, target = ''B'', targetHandle = None\<rparr>]
     = Inl (CycleDetected [''B'', ''C''])"
proof -
  let ?N = "[\<lparr>nid = ''A'', ntype = ''textInputNode'', ndata = []\<rparr>,
      \<lparr>nid = ''B'', ntype = ''imageInputNode'', ndata = []\<rparr>,
      \<lparr>nid = ''C'', ntype = ''textOutputNode'', ndata = []\<rparr>]"
  let ?E = "[\<lparr>source = ''A'', sourceHandle = None, target = ''B'', targetHandle = None\<rparr>,
      \<lparr>source = ''B'', sourceHandle = None, target = ''C'', targetHandle = None\<rparr>,
      \<lparr>source = ''C'', sourceHandle = None, target = ''B'', targetHandle = None\<rparr>]"
  have graph: "is_graph ?N ?E" by (simp add: is_graph_def)
  have "(''B'', ''C'') \<in> dependency ?E" and "(''C'', ''B'') \<in> dependency ?E"
    by (simp_all add: dependency_def)
  then have cyc: "(''B'', ''B'') \<in> (dependency ?E)\<^sup>+" by (rule trancl_into_trancl [OF r_into_trancl])
  then have "\<not> acyclic (dependency ?E)" by (auto simp add: acyclic_def)
  from cycle_is_detected [OF graph this] obtain ids where
    "buildPlan ?N ?E = Inl (CycleDetected ids)" by blast
  moreover have "buildPlan ?N ?E = Inl (CycleDetected [''B'', ''C''])"
    by (simp add: buildPlan_def first_dangling_def in_degree_def waves.simps Let_def)
  ultimately show ?thesis using graph cyc by simp
qed

section \<open>Plans do not depend on the order of the arrays\<close>

lemma length_filter_mset:
  assumes "mset es' = mset es"
  shows "length (filter P es') = length (filter P es)"
proof -
  have "mset (filter P es') = mset (filter P es)" by (simp add: assms)
  then show ?thesis by (rule mset_eq_length)
qed

lemma decrement_perm:
  assumes "mset es' = mset es" and "set wave' = set wave"
  shows "decrement wave' es' d = decrement wave es d"
proof
  fix n
  have "length (filter (\<lambda>e. source e \<in> set wave \<and> target e = n) es') =
        length (filter (\<lambda>e. source e \<in> set wave \<and> target e = n) es)"
    using assms(1) by (rule length_filter_mset)
  then show "decrement wave' es' d n = decrement wave es d n"
    unfolding decrement_closed assms(2) by (rule arg_cong)
qed

lemma in_degree_perm: "mset es' = mset es \<Longrightarrow> in_degree es' = in_degree es"
proof
  fix n
  assume "mset es' = mset es"
  then have "length (filter (\<lambda>e. target e = n) es') = length (filter (\<lambda>e. target e = n) es)"
    by (rule length_filter_mset)
  then show "in_degree es' n = in_degree es n" by (simp add: in_degree_def)
qed

lemma waves_order:
  "waves es remaining d = Inr plan \<Longrightarrow>
   list_all (\<lambda>w. w = filter (\<lambda>n. n \<in> set w) remaining) plan"
proof (induction es remaining d arbitrary: plan rule: waves.induct)
  case (1 es remaining d)
  let ?wave = "filter (\<lambda>n. d n = 0) remaining"
  let ?rest = "filter (\<lambda>n. d n \<noteq> 0) remaining"
  show ?case
  proof (cases "remaining = []")
    case True
    with "1.prems" show ?thesis by (simp add: waves_Nil)
  next
    case False
    note nonempty = this
    show ?thesis
    proof (cases "?wave = []")
      case True
      with nonempty "1.prems" show ?thesis by (simp add: waves_stuck)
    next
      case False
      with "1.prems" obtain plan' where
        rec: "waves es ?rest (decrement ?wave es d) = Inr plan'" and plan: "plan = ?wave # plan'"
        by (auto simp add: waves_step split: sum.splits)
      from "1.IH" [OF nonempty refl False rec]
      have ih: "list_all (\<lambda>w. w = filter (\<lambda>n. n \<in> set w) ?rest) plan'" .
      have first: "?wave = filter (\<lambda>n. n \<in> set ?wave) remaining"
        by (rule filter_cong) auto
      have later: "w = filter (\<lambda>n. n \<in> set w) remaining"
        if "w = filter (\<lambda>n. n \<in> set w) ?rest" for w
      proof -
        have "set (filter (\<lambda>n. n \<in> set w) ?rest) \<subseteq> set ?rest" by (rule filter_is_subset)
        moreover from that have "set w = set (filter (\<lambda>n. n \<in> set w) ?rest)"
          by (rule arg_cong)
        ultimately have sub: "set w \<subseteq> set ?rest" by blast
        have "filter (\<lambda>n. n \<in> set w) ?rest = filter (\<lambda>n. n \<in> set w) remaining"
          unfolding filter_filter by (rule filter_cong) (use sub in auto)
        with that show ?thesis by (rule trans)
      qed
      from ih later have rest: "list_all (\<lambda>w. w = filter (\<lambda>n. n \<in> set w) remaining) plan'"
        unfolding list_all_iff by blast
      from first rest show ?thesis unfolding plan list.pred_inject(2) by (rule conjI)
    qed
  qed
qed


lemma waves_perm:
  "mset es' = mset es \<Longrightarrow> set remaining' = set remaining \<Longrightarrow>
    (\<forall>plan. waves es remaining d = Inr plan \<longrightarrow>
       (\<exists>plan'. waves es' remaining' d = Inr plan' \<and> map set plan' = map set plan)) \<and>
    (\<forall>err. waves es remaining d = Inl err \<longrightarrow>
       (\<exists>ids ids'. err = CycleDetected ids \<and> waves es' remaining' d = Inl (CycleDetected ids')
          \<and> set ids' = set ids))"
proof (induction es remaining d arbitrary: remaining' rule: waves.induct)
  case (1 es remaining d)
  let ?wave = "filter (\<lambda>n. d n = 0) remaining"
  let ?rest = "filter (\<lambda>n. d n \<noteq> 0) remaining"
  let ?wave' = "filter (\<lambda>n. d n = 0) remaining'"
  let ?rest' = "filter (\<lambda>n. d n \<noteq> 0) remaining'"
  note perm = "1.prems"(1) and sets = "1.prems"(2)
  from sets have wave_sets: "set ?wave' = set ?wave" and rest_sets: "set ?rest' = set ?rest"
    by auto
  from perm wave_sets have dec: "decrement ?wave' es' d = decrement ?wave es d"
    by (rule decrement_perm)
  show ?case
  proof (cases "remaining = []")
    case True
    with sets have "remaining' = []" by simp
    with True show ?thesis by (simp add: waves_Nil)
  next
    case False
    note nonempty = this
    with sets have nonempty': "remaining' \<noteq> []" by auto
    show ?thesis
    proof (cases "?wave = []")
      case True
      with wave_sets have "?wave' = []" by (metis set_empty)
      with True nonempty nonempty' sets show ?thesis by (simp add: waves_stuck)
    next
      case False
      with wave_sets have wave': "?wave' \<noteq> []" by (metis set_empty)
      note ih = "1.IH" [OF nonempty refl False perm rest_sets]
      have step: "waves es remaining d =
          (case waves es ?rest (decrement ?wave es d) of
             Inl err \<Rightarrow> Inl err | Inr plan \<Rightarrow> Inr (?wave # plan))"
        by (rule waves_step [OF False])
      have step': "waves es' remaining' d =
          (case waves es' ?rest' (decrement ?wave es d) of
             Inl err \<Rightarrow> Inl err | Inr plan \<Rightarrow> Inr (?wave' # plan))"
        using waves_step [OF wave', of es'] by (simp only: dec)
      show ?thesis
      proof (cases "waves es ?rest (decrement ?wave es d)")
        case (Inl err)
        with ih obtain ids ids' where "err = CycleDetected ids"
          and "waves es' ?rest' (decrement ?wave es d) = Inl (CycleDetected ids')"
          and "set ids' = set ids" by blast
        with Inl show ?thesis by (simp add: step step')
      next
        case (Inr plan0)
        with ih obtain plan0' where "waves es' ?rest' (decrement ?wave es d) = Inr plan0'"
          and "map set plan0' = map set plan0" by blast
        with Inr wave_sets show ?thesis by (simp add: step step')
      qed
    qed
  qed
qed


lemma not_graph_error:
  assumes "\<not> is_graph nodes es"
  shows "(\<exists>i. buildPlan nodes es = Inl (DuplicateNodeId i)) \<or>
         (\<exists>e. buildPlan nodes es = Inl (DanglingEdge e))"
proof (cases "first_duplicate (map nid nodes)")
  case (Some i)
  then show ?thesis by (simp add: buildPlan_def)
next
  case None
  then have "distinct (map nid nodes)" by (simp add: first_duplicate_None)
  with assms have "first_dangling (map nid nodes) es \<noteq> None"
    by (simp add: is_graph_def first_dangling_None)
  with None show ?thesis by (auto simp add: buildPlan_def)
qed

lemma is_graph_perm:
  assumes "mset nodes' = mset nodes" and "mset es' = mset es"
  shows "is_graph nodes' es' \<longleftrightarrow> is_graph nodes es"
proof -
  from assms(1) have ids: "mset (map nid nodes') = mset (map nid nodes)" by simp
  then have "distinct (map nid nodes') \<longleftrightarrow> distinct (map nid nodes)"
    by (rule mset_eq_imp_distinct_iff)
  moreover from ids have "set (map nid nodes') = set (map nid nodes)" by (rule mset_eq_setD)
  moreover from assms(2) have "set es' = set es" by (rule mset_eq_setD)
  ultimately show ?thesis by (simp add: is_graph_def list_all_iff)
qed

lemma waves_same_order:
  "list_all (\<lambda>w. w = filter (\<lambda>n. n \<in> set w) xs) plan \<Longrightarrow>
   list_all (\<lambda>w. w = filter (\<lambda>n. n \<in> set w) xs) plan' \<Longrightarrow>
   map set plan' = map set plan \<Longrightarrow> plan' = plan"
proof (induction plan arbitrary: plan')
  case Nil
  then show ?case by simp
next
  case (Cons w plan)
  from Cons.prems(3) obtain w' rest' where p': "plan' = w' # rest'" and
    sw: "set w' = set w" and rest: "map set rest' = map set plan"
    by (cases plan') auto
  from Cons.prems(1) have w: "w = filter (\<lambda>n. n \<in> set w) xs"
    and tl: "list_all (\<lambda>w. w = filter (\<lambda>n. n \<in> set w) xs) plan"
    unfolding list.pred_inject(2) by blast+
  from Cons.prems(2) have w': "w' = filter (\<lambda>n. n \<in> set w') xs"
    and tl': "list_all (\<lambda>w. w = filter (\<lambda>n. n \<in> set w) xs) rest'"
    unfolding p' list.pred_inject(2) by blast+
  have "filter (\<lambda>n. n \<in> set w') xs = filter (\<lambda>n. n \<in> set w) xs" unfolding sw ..
  with w' have "w' = filter (\<lambda>n. n \<in> set w) xs" by (rule trans)
  from this w [symmetric] have "w' = w" by (rule trans)
  moreover from Cons.IH [OF tl tl' rest] have "rest' = plan" .
  ultimately show ?case unfolding p' by (rule arg_cong2 [of _ _ _ _ Cons])
qed

text \<open>
  Claim C8. \<^verbatim>\<open>buildPlan\<close> is a function of its two arrays, so two applications to the
  same arrays give the same result. For any permutation of the node array and any
  permutation of the edge array: when one application returns a plan, so does the other;
  the two plans have the same waves, in the same sequence, each wave with the same
  nodes; within each wave the nodes stand in the order of the node array given; and
  when the node array is in the same order (only the edges are permuted) the two plans
  are equal. When one application reports a cycle, so does the other, with the same
  ids; and one fails exactly when the other does.
\<close>

theorem plan_is_order_insensitive:
  assumes "mset nodes' = mset nodes" and "mset es' = mset es"
  shows "(\<forall>plan. buildPlan nodes es = Inr plan \<longrightarrow>
            (\<exists>plan'. buildPlan nodes' es' = Inr plan' \<and> map set plan' = map set plan
               \<and> list_all (\<lambda>w. w = filter (\<lambda>n. n \<in> set w) (map nid nodes')) plan'
               \<and> (map nid nodes' = map nid nodes \<longrightarrow> plan' = plan)))
       \<and> (\<forall>ids. buildPlan nodes es = Inl (CycleDetected ids) \<longrightarrow>
            (\<exists>ids'. buildPlan nodes' es' = Inl (CycleDetected ids') \<and> set ids' = set ids))
       \<and> (isl (buildPlan nodes' es') \<longleftrightarrow> isl (buildPlan nodes es))"
proof (cases "is_graph nodes es")
  case False
  with is_graph_perm [OF assms] have "\<not> is_graph nodes' es'" by simp
  from not_graph_error [OF False] not_graph_error [OF this] show ?thesis by auto
next
  case True
  with is_graph_perm [OF assms] have graph': "is_graph nodes' es'" by simp
  from assms(1) have "mset (map nid nodes') = mset (map nid nodes)" by simp
  then have sets: "set (map nid nodes') = set (map nid nodes)" by (rule mset_eq_setD)
  note run = buildPlan_graph [OF True]
  have run': "buildPlan nodes' es' = waves es' (map nid nodes') (in_degree es)"
    using buildPlan_graph [OF graph'] in_degree_perm [OF assms(2)] by simp
  note rel = waves_perm [OF assms(2) sets, of "in_degree es"]
  have plans: "\<exists>plan'. buildPlan nodes' es' = Inr plan' \<and> map set plan' = map set plan
               \<and> list_all (\<lambda>w. w = filter (\<lambda>n. n \<in> set w) (map nid nodes')) plan'
               \<and> (map nid nodes' = map nid nodes \<longrightarrow> plan' = plan)"
    if p: "buildPlan nodes es = Inr plan" for plan
  proof -
    from p rel obtain plan' where p': "buildPlan nodes' es' = Inr plan'"
      and same: "map set plan' = map set plan" unfolding run run' by blast
    from p' have ord': "list_all (\<lambda>w. w = filter (\<lambda>n. n \<in> set w) (map nid nodes')) plan'"
      unfolding run' by (rule waves_order)
    from p have ord: "list_all (\<lambda>w. w = filter (\<lambda>n. n \<in> set w) (map nid nodes)) plan"
      unfolding run by (rule waves_order)
    have "plan' = plan" if "map nid nodes' = map nid nodes"
      using ord ord' same unfolding that by (rule waves_same_order)
    with p' same ord' show ?thesis by blast
  qed
  have cycles: "\<exists>ids'. buildPlan nodes' es' = Inl (CycleDetected ids') \<and> set ids' = set ids"
    if "buildPlan nodes es = Inl (CycleDetected ids)" for ids
    using that rel unfolding run run' by blast
  have "isl (buildPlan nodes' es') \<longleftrightarrow> isl (buildPlan nodes es)"
  proof (cases "buildPlan nodes es")
    case (Inl err)
    with rel show ?thesis unfolding run run' by auto
  next
    case (Inr plan)
    with plans show ?thesis by auto
  qed
  with plans cycles show ?thesis by blast
qed


theorem plan_is_order_insensitive_witness:
  "mset
     [\<lparr>nid = ''C'', ntype = ''textOutputNode'', ndata = []\<rparr>,
      \<lparr>nid = ''B'', ntype = ''imageInputNode'', ndata = []\<rparr>,
      \<lparr>nid = ''A'', ntype = ''textInputNode'', ndata = []\<rparr>]
   = mset
     [\<lparr>nid = ''A'', ntype = ''textInputNode'', ndata = []\<rparr>,
      \<lparr>nid = ''B'', ntype = ''imageInputNode'', ndata = []\<rparr>,
      \<lparr>nid = ''C'', ntype = ''textOutputNode'', ndata = []\<rparr>]
   \<and> mset
     [\<lparr>source = ''B'', sourceHandle = None, target = ''C'', targetHandle = Some ''image''\<rparr>,
      \<lparr>source = ''A'', sourceHandle = None, target = ''C'', targetHandle = Some ''text''\<rparr>]
   = mset
     [\<lparr>source = ''A'', sourceHandle = None, target = ''C'', targetHandle = Some ''text''\<rparr>,
      \<lparr>source = ''B'', sourceHandle = None, target = ''C'', targetHandle = Some ''image''\<rparr>]
   \<and> buildPlan
     [\<lparr>nid = ''A'', ntype = ''textInputNode'', ndata = []\<rparr>,
      \<lparr>nid = ''B'', ntype = ''imageInputNode'', ndata = []\<rparr>,
      \<lparr>nid = ''C'', ntype = ''textOutputNode'', ndata = []\<rparr>]
     [\<lparr>source = ''A'', sourceHandle = None, target = ''C'', targetHandle = Some ''text''\<rparr>,
      \<lparr>source = ''B'', sourceHandle = None, target = ''C'', targetHandle = Some ''image''\<rparr>]
     = Inr [[''A'', ''B''], [''C'']]
   \<and> buildPlan
     [\<lparr>nid = ''C'', ntype = ''textOutputNode'', ndata = []\<rparr>,
      \<lparr>nid = ''B'', ntype = ''imageInputNode'', ndata = []\<rparr>,
      \<lparr>nid = ''A'', ntype = ''textInputNode'', ndata = []\<rparr>]
     [\<lparr>source = ''B'', sourceHandle = None, target = ''C'', targetHandle = Some ''image''\<rparr>,
      \<lparr>source = ''A'', sourceHandle = None, target = ''C'', targetHandle = Some ''text''\<rparr>]
     = Inr [[''B'', ''A''], [''C'']]
   \<and> buildPlan
     [\<lparr>nid = ''A'', ntype = ''textInputNode'', ndata = []\<rparr>,
      \<lparr>nid = ''B'', ntype = ''imageInputNode'', ndata = []\<rparr>,
      \<lparr>nid = ''C'', ntype = ''textOutputNode'', ndata = []\<rparr>]
     [\<lparr>source = ''B'', sourceHandle = None, target = ''C'', targetHandle = Some ''image''\<rparr>,
      \<lparr>source = ''A'', sourceHandle = None, target = ''C'', targetHandle = Some ''text''\<rparr>]
     = Inr [[''A'', ''B''], [''C'']]"
proof -
  let ?N = "[\<lparr>nid = ''A'', ntype = ''textInputNode'', ndata = []\<rparr>,
      \<lparr>nid = ''B'', ntype = ''imageInputNode'', ndata = []\<rparr>,
      \<lparr>nid = ''C'', ntype = ''textOutputNode'', ndata = []\<rparr>]"
  let ?N' = "[\<lparr>nid = ''C'', ntype = ''textOutputNode'', ndata = []\<rparr>,
      \<lparr>nid = ''B'', ntype = ''imageInputNode'', ndata = []\<rparr>,
      \<lparr>nid = ''A'', ntype = ''textInputNode'', ndata = []\<rparr>]"
  let ?E = "[\<lparr>source = ''A'', sourceHandle = None, target = ''C'', targetHandle = Some ''text''\<rparr>,
      \<lparr>source = ''B'', sourceHandle = None, target = ''C'', targetHandle = Some ''image''\<rparr>]"
  let ?E' = "[\<lparr>source = ''B'', sourceHandle = None, target = ''C'', targetHandle = Some ''image''\<rparr>,
      \<lparr>source = ''A'', sourceHandle = None, target = ''C'', targetHandle = Some ''text''\<rparr>]"
  have nodes: "mset ?N' = mset ?N" by simp
  have edges: "mset ?E' = mset ?E" by simp
  have run: "buildPlan ?N ?E = Inr [[''A'', ''B''], [''C'']]"
    by (simp add: buildPlan_def first_dangling_def in_degree_def waves.simps Let_def)
  have run': "buildPlan ?N' ?E' = Inr [[''B'', ''A''], [''C'']]"
    by (simp add: buildPlan_def first_dangling_def in_degree_def waves.simps Let_def)
  from plan_is_order_insensitive [OF refl edges, of ?N] run
  have "buildPlan ?N ?E' = Inr [[''A'', ''B''], [''C'']]" by auto
  moreover from plan_is_order_insensitive [OF nodes edges] run run'
  have "map set [[''B'', ''A''], [''C'']] = map set [[''A'', ''B''], [''C'']]" by auto
  ultimately show ?thesis using nodes edges run run' by blast
qed

end
